theory Spec2Isabelle
  imports Main "HOL-Library.Char_ord" "HOL-Library.List_Lexorder" "HOL-Library.Sublist"
    "HOL-Library.Multiset"
begin

section \<open>Characters and strings\<close>

text \<open>
  Filing text is a Python \<open>str\<close>; it is modelled as a \<open>string\<close>, a list of 8-bit
  characters, each read as the Unicode code point of the same number (0 to 255). The
  classes below are Python's on that range: \<open>str.isspace\<close>, which is also the pattern
  class \<open>\s\<close> and the set that \<open>str.strip\<close> and \<open>str.split\<close> work with, holds for the
  code points 9-13, 28-32, 133 and 160; \<open>\d\<close> holds for the ten digits; \<open>str.isupper\<close> for
  \<open>A\<close>-\<open>Z\<close> and 192-222 without 215; \<open>str.islower\<close> for \<open>a\<close>-\<open>z\<close>, 170, 181, 186 and
  223-255 without 247. \<open>str.lower\<close> adds 32 to an upper-case character and stays in the
  range.
\<close>

definition is_space :: "char \<Rightarrow> bool" where
  "is_space c = (let n = (of_char c :: nat)
     in (9 \<le> n \<and> n \<le> 13) \<or> (28 \<le> n \<and> n \<le> 32) \<or> n = 133 \<or> n = 160)"

definition is_digit :: "char \<Rightarrow> bool" where
  "is_digit c = (let n = (of_char c :: nat) in 48 \<le> n \<and> n \<le> 57)"

definition is_lower :: "char \<Rightarrow> bool" where
  "is_lower c = (let n = (of_char c :: nat)
     in (97 \<le> n \<and> n \<le> 122) \<or> n = 170 \<or> n = 181 \<or> n = 186
        \<or> (223 \<le> n \<and> n \<le> 255 \<and> n \<noteq> 247))"

definition is_upper :: "char \<Rightarrow> bool" where
  "is_upper c = (let n = (of_char c :: nat)
     in (65 \<le> n \<and> n \<le> 90) \<or> (192 \<le> n \<and> n \<le> 222 \<and> n \<noteq> 215))"

definition lower :: "char \<Rightarrow> char" where
  "lower c = (if is_upper c then char_of ((of_char c :: nat) + 32) else c)"

text \<open>
  \<open>str.upper\<close> leaves the range: the upper case of 181 is the code point 924, that of 255
  is 376, and that of 223 is the two characters \<open>SS\<close>. Its result is therefore a list of
  code points; \<open>of_string\<close> reads a string as such a list.
\<close>

type_synonym code_points = "nat list"

definition of_string :: "string \<Rightarrow> code_points" where
  "of_string s = map of_char s"

definition upper_char :: "char \<Rightarrow> code_points" where
  "upper_char c = (let n = (of_char c :: nat)
     in if (97 \<le> n \<and> n \<le> 122) \<or> (224 \<le> n \<and> n \<le> 254 \<and> n \<noteq> 247) then [n - 32]
        else if n = 181 then [924]
        else if n = 223 then [83, 83]
        else if n = 255 then [376]
        else [n])"

definition upper :: "string \<Rightarrow> code_points" where
  "upper s = concat (map upper_char s)"

text \<open>\<open>s.strip()\<close>: whitespace removed at both ends.\<close>

definition strip :: "string \<Rightarrow> string" where
  "strip s = rev (dropWhile is_space (rev (dropWhile is_space s)))"

text \<open>No two neighbouring characters of a string are both whitespace.\<close>

fun no_double_space :: "string \<Rightarrow> bool" where
  "no_double_space [] = True"
| "no_double_space [c] = True"
| "no_double_space (c # d # t) = ((if is_space c then \<not> is_space d else True) \<and> no_double_space (d # t))"

section \<open>Regular expressions\<close>

text \<open>
  The patterns of the two scripts are values of the type \<open>re\<close>, one constructor for each
  construct they use: a character class, sequence, the greedy option \<open>r?\<close>, a repeated
  character class (\<open>Rep k n True\<close> is the greedy \<open>k{n,}\<close>, \<open>Rep k n False\<close> the lazy one,
  so \<open>\s*\<close> is \<open>Rep Space 0 True\<close>, \<open>\s+\<close> is \<open>Rep Space 1 True\<close> and \<open>.*?\<close> is
  \<open>Rep AnyChar 0 False\<close>), a capture group, the lookahead \<open>(?=r)\<close> and the one-character
  lookbehind \<open>(?<=k)\<close>. \<open>AnyChar\<close> is the dot under \<open>re.DOTALL\<close>. The flag \<open>ic\<close> is
  \<open>re.IGNORECASE\<close>.
\<close>

datatype cls = Lit char | Space | Digit | AnyChar | OneOf string

fun cls_match :: "bool \<Rightarrow> cls \<Rightarrow> char \<Rightarrow> bool" where
  "cls_match ic (Lit a) c = (if ic then lower a = lower c else a = c)"
| "cls_match ic Space c = is_space c"
| "cls_match ic Digit c = is_digit c"
| "cls_match ic AnyChar c = True"
| "cls_match ic (OneOf as) c = (if ic then lower c \<in> set (map lower as) else c \<in> set as)"

datatype re = Eps | Atom cls | Seq re re | Opt re | Rep cls nat bool | Group re | Ahead re
  | Behind cls

text \<open>
  A position in the text is the character before it (if any) and the text after it.
  \<open>ms ic r p\<close> lists every way \<open>r\<close> matches at the position \<open>p\<close>, as the captured groups
  and the position after the match, in the order in which the backtracking matcher of
  Python's \<open>re\<close> tries them: the head of the list is the match that \<open>re\<close> reports at \<open>p\<close>.
  \<open>reps\<close> lists the positions after 0, 1, 2, ... characters of a class.
\<close>

type_synonym pos = "char option \<times> string"

fun reps :: "bool \<Rightarrow> cls \<Rightarrow> char option \<Rightarrow> string \<Rightarrow> pos list" where
  "reps ic k pc [] = [(pc, [])]"
| "reps ic k pc (c # t) = (pc, c # t) # (if cls_match ic k c then reps ic k (Some c) t else [])"

fun ms :: "bool \<Rightarrow> re \<Rightarrow> pos \<Rightarrow> (string list \<times> pos) list" where
  "ms ic Eps p = [([], p)]"
| "ms ic (Atom k) (pc, s) =
     (case s of [] \<Rightarrow> [] | c # t \<Rightarrow> if cls_match ic k c then [([], (Some c, t))] else [])"
| "ms ic (Seq a b) p =
     concat (map (\<lambda>(g, q). map (\<lambda>(h, r). (g @ h, r)) (ms ic b q)) (ms ic a p))"
| "ms ic (Opt a) p = ms ic a p @ [([], p)]"
| "ms ic (Rep k n greedy) (pc, s) =
     (let ends = drop n (reps ic k pc s)
      in map (\<lambda>q. ([], q)) (if greedy then rev ends else ends))"
| "ms ic (Group a) (pc, s) =
     map (\<lambda>(g, (qc, t)). (take (length s - length t) s # g, (qc, t))) (ms ic a (pc, s))"
| "ms ic (Ahead a) p = (if ms ic a p = [] then [] else [([], p)])"
| "ms ic (Behind k) (pc, s) =
     (case pc of None \<Rightarrow> [] | Some c \<Rightarrow> if cls_match ic k c then [([], (pc, s))] else [])"

text \<open>A literal string, and a sequence of patterns.\<close>

fun lit :: "string \<Rightarrow> re" where
  "lit [] = Eps"
| "lit [c] = Atom (Lit c)"
| "lit (c # cs) = Seq (Atom (Lit c)) (lit cs)"

fun seqs :: "re list \<Rightarrow> re" where
  "seqs [] = Eps"
| "seqs [r] = r"
| "seqs (r # rs) = Seq r (seqs rs)"

definition ws0 :: re where "ws0 = Rep Space 0 True"
definition ws1 :: re where "ws1 = Rep Space 1 True"

text \<open>
  A match object: the text skipped before the match (since the search started), the
  matched text, the groups and the position after the match. \<open>first_match\<close> is the match
  reported at one position; with \<open>adv\<close>, which \<open>re\<close> sets after an empty match, an empty
  match is not accepted there. \<open>search_from\<close> scans the positions from left to right.
\<close>

record rmatch =
  m_pre :: string
  m_text :: string
  m_groups :: "string list"
  m_end :: pos

definition first_match :: "bool \<Rightarrow> re \<Rightarrow> bool \<Rightarrow> pos \<Rightarrow> (string list \<times> pos) option" where
  "first_match ic r adv p =
     List.find (\<lambda>(g, q). if adv then snd q \<noteq> snd p else True) (ms ic r p)"

fun search_from :: "bool \<Rightarrow> re \<Rightarrow> bool \<Rightarrow> char option \<Rightarrow> string \<Rightarrow> rmatch option" where
  "search_from ic r adv pc [] =
     (case first_match ic r adv (pc, []) of
        None \<Rightarrow> None
      | Some (g, q) \<Rightarrow> Some \<lparr>m_pre = [], m_text = [], m_groups = g, m_end = q\<rparr>)"
| "search_from ic r adv pc (c # t) =
     (case first_match ic r adv (pc, c # t) of
        None \<Rightarrow> map_option (\<lambda>m. m\<lparr>m_pre := c # m_pre m\<rparr>) (search_from ic r False (Some c) t)
      | Some (g, q) \<Rightarrow>
          Some \<lparr>m_pre = [], m_text = take (length (c # t) - length (snd q)) (c # t),
                m_groups = g, m_end = q\<rparr>)"

text \<open>\<open>pattern.search(text)\<close> and \<open>m.group(1)\<close>.\<close>

definition re_search :: "bool \<Rightarrow> re \<Rightarrow> string \<Rightarrow> rmatch option" where
  "re_search ic r s = search_from ic r False None s"

definition group1 :: "rmatch \<Rightarrow> string" where
  "group1 m = (case m_groups m of [] \<Rightarrow> [] | g # _ \<Rightarrow> g)"

subsection \<open>Successive matches\<close>

text \<open>
  A match ends in a suffix of the text it started in, and the search consumes text unless
  the match is empty; this is what makes the iteration over all matches end.
\<close>

lemma reps_split:
  "(qc, t) \<in> set (reps ic k pc s) \<Longrightarrow>
     \<exists>u. s = u @ t \<and> list_all (cls_match ic k) u \<and> qc = (if u = [] then pc else Some (last u))"
proof (induction s arbitrary: pc)
  case Nil
  then show ?case by simp
next
  case (Cons c s)
  show ?case
  proof (cases "(qc, t) = (pc, c # s)")
    case True
    then show ?thesis by simp
  next
    case False
    with Cons.prems have m: "cls_match ic k c" and mem: "(qc, t) \<in> set (reps ic k (Some c) s)"
      by (auto split: if_splits)
    from Cons.IH [OF mem] obtain u where
      u: "s = u @ t" "list_all (cls_match ic k) u" "qc = (if u = [] then Some c else Some (last u))"
      by blast
    show ?thesis
      by (rule exI [of _ "c # u"]) (use u m in auto)
  qed
qed

lemma ms_suffix:
  "(g, (qc, t)) \<in> set (ms ic r (pc, s)) \<Longrightarrow> suffix t s"
proof (induction r arbitrary: g qc t pc s)
  case Eps
  then show ?case by simp
next
  case (Atom k)
  then show ?case by (auto simp: suffix_def split: list.splits if_splits)
next
  case (Seq a b)
  from Seq.prems obtain g1 q1 g2 where
    a: "(g1, q1) \<in> set (ms ic a (pc, s))" and b: "(g2, (qc, t)) \<in> set (ms ic b q1)"
    by auto
  obtain qc1 t1 where q1: "q1 = (qc1, t1)" by (cases q1)
  from Seq.IH(1) [OF a [unfolded q1]] Seq.IH(2) [OF b [unfolded q1]]
  show ?case by (rule suffix_order.trans [rotated])
next
  case (Opt a)
  then show ?case by auto
next
  case (Rep k n greedy)
  then have "(qc, t) \<in> set (reps ic k pc s)"
    by (auto simp: Let_def dest: in_set_dropD split: if_splits)
  from reps_split [OF this] show ?case by (auto simp: suffix_def)
next
  case (Group a)
  then show ?case by auto
next
  case (Ahead a)
  then show ?case by (auto split: if_splits)
next
  case (Behind k)
  then show ?case by (auto split: option.splits if_splits)
qed

lemma first_match_Some:
  "first_match ic r adv p = Some (g, q) \<Longrightarrow>
     (g, q) \<in> set (ms ic r p) \<and> (if adv then snd q \<noteq> snd p else True)"
  unfolding first_match_def
  by (auto simp: find_Some_iff in_set_conv_nth)

lemma first_match_suffix:
  assumes "first_match ic r adv (pc, s) = Some (g, q)"
  shows "suffix (snd q) s" and "adv \<Longrightarrow> length (snd q) < length s"
proof -
  from first_match_Some [OF assms] have mem: "(g, q) \<in> set (ms ic r (pc, s))"
    and ne: "adv \<Longrightarrow> snd q \<noteq> s" by (auto split: if_splits)
  from mem show suf: "suffix (snd q) s" by (cases q) (auto dest: ms_suffix)
  show "length (snd q) < length s" if adv
    using suf ne [OF that] by (auto simp: suffix_def)
qed

lemma search_from_parts:
  "search_from ic r adv pc s = Some m \<Longrightarrow>
     s = m_pre m @ m_text m @ snd (m_end m)
     \<and> (adv \<and> m_text m = [] \<longrightarrow> m_pre m \<noteq> [])"
proof (induction s arbitrary: adv pc m)
  case Nil
  then show ?case
    by (auto split: option.splits dest: first_match_suffix)
next
  case (Cons c t)
  show ?case
  proof (cases "first_match ic r adv (pc, c # t)")
    case None
    with Cons.prems obtain m' where m': "search_from ic r False (Some c) t = Some m'"
      and m: "m = m'\<lparr>m_pre := c # m_pre m'\<rparr>" by auto
    from Cons.IH [OF m'] m show ?thesis by simp
  next
    case (Some gq)
    obtain g q where gq: "gq = (g, q)" by (cases gq)
    from first_match_suffix [OF Some [unfolded gq]]
    have suf: "suffix (snd q) (c # t)" and adv: "adv \<Longrightarrow> length (snd q) < length (c # t)"
      by auto
    from Cons.prems Some gq have m: "m = \<lparr>m_pre = [],
         m_text = take (length (c # t) - length (snd q)) (c # t), m_groups = g, m_end = q\<rparr>"
      by simp
    from suf obtain u where u: "c # t = u @ snd q" by (auto simp: suffix_def)
    then have len: "length (c # t) - length (snd q) = length u" by (metis add_diff_cancel_right' length_append)
    have "take (length u) (c # t) = u" using u by (metis append_eq_conv_conj)
    with m u len adv show ?thesis by auto
  qed
qed

lemma search_from_measure:
  assumes "search_from ic r adv pc s = Some m"
  shows "2 * length (snd (m_end m)) + (if m_text m = [] then 0 else 1)
           < 2 * length s + (if adv then 0 else (1::nat))"
proof -
  from search_from_parts [OF assms]
  have s: "s = m_pre m @ m_text m @ snd (m_end m)"
    and a: "adv \<and> m_text m = [] \<longrightarrow> m_pre m \<noteq> []" by auto
  have len: "length s = length (m_pre m) + length (m_text m) + length (snd (m_end m))"
    by (subst s) simp
  show ?thesis
  proof (cases "m_text m = []")
    case True
    with a len show ?thesis by (cases adv; cases "m_pre m") auto
  next
    case False
    then obtain x xs where "m_text m = x # xs" by (cases "m_text m") auto
    with len show ?thesis by (cases adv) auto
  qed
qed


text \<open>
  The iteration of \<open>re.finditer\<close>, \<open>re.findall\<close> and \<open>re.split\<close>: the next search starts
  where the match ended, and after an empty match it must move on.
\<close>

function finditer :: "bool \<Rightarrow> re \<Rightarrow> bool \<Rightarrow> char option \<Rightarrow> string \<Rightarrow> rmatch list" where
  "finditer ic r adv pc s =
     (case search_from ic r adv pc s of
        None \<Rightarrow> []
      | Some m \<Rightarrow> m # finditer ic r (m_text m = []) (fst (m_end m)) (snd (m_end m)))"
  by pat_completeness auto
termination
proof (relation "measure (\<lambda>(ic, r, adv, pc, s). 2 * length s + (if adv then 0 else 1))",
    goal_cases)
  case 1
  show ?case by simp
next
  case (2 ic r adv pc s m)
  from search_from_measure [OF 2] show ?case by (simp add: case_prod_beta)
qed

declare finditer.simps [simp del]

text \<open>
  \<open>re.findall\<close> for a pattern without groups, and \<open>re.split\<close> for a pattern without
  groups: the texts between the successive matches, and the text after the last one.
\<close>

definition findall :: "bool \<Rightarrow> re \<Rightarrow> string \<Rightarrow> string list" where
  "findall ic r s = map m_text (finditer ic r False None s)"

definition re_split :: "bool \<Rightarrow> re \<Rightarrow> string \<Rightarrow> string list" where
  "re_split ic r s =
     (let found = finditer ic r False None s
      in map m_pre found @ [if found = [] then s else snd (m_end (last found))])"

text \<open>
  The character before the position reached after the text \<open>u\<close>, and the property
  that a text does not begin with a character of a given kind.
\<close>

definition pos_after :: "char option \<Rightarrow> string \<Rightarrow> char option" where
  "pos_after pc u = (if u = [] then pc else Some (last u))"

fun no_head :: "(char \<Rightarrow> bool) \<Rightarrow> string \<Rightarrow> bool" where
  "no_head P [] = True"
| "no_head P (c # t) = (\<not> P c)"

section \<open>SEC\_API\_Analysis: the paginated query\<close>

text \<open>
  The exceptions the routines below meet: an exception of the search client
  (\<open>api.get_filings\<close> raises on a failed request), the \<open>ValueError\<close> of
  \<open>random.sample\<close>, an exception of \<open>requests.get\<close>, one of the HTML parser, the
  \<open>AttributeError\<close> of a call of \<open>.get\<close> on a value that is not a dictionary, and the
  error of \<open>resp.json()\<close> on a body that is not JSON.
\<close>

datatype error = ApiError string | ValueError | RequestError string | ParserError string
  | AttributeError | JSONDecodeError

text \<open>
  A filing of the search client's result, with the entries the loop reads, and the row
  that \<open>query_filings\<close> builds from it.
\<close>

record api_filing =
  api_cik :: string
  api_companyName :: string
  api_formType :: string
  api_filedAt :: string
  api_accessionNo :: string
  api_linkToFilingDetails :: string

record filing_row =
  cik :: string
  companyName :: string
  formType :: string
  filedAt :: string
  accessionNumber :: string
  fileLink :: string

text \<open>
  The query sent for one page (its sort order is constant). The client is a function of
  the query: it raises, or returns a result whose \<open>filings\<close> entry may be missing.
\<close>

record query =
  q_query_string :: string
  q_from :: int
  q_size :: int

type_synonym api = "query \<Rightarrow> error + api_filing list option"

text \<open>\<open>d.get(key, default)\<close> on an entry that may be missing.\<close>

definition get_or :: "'a option \<Rightarrow> 'a \<Rightarrow> 'a" where
  "get_or v d = (case v of None \<Rightarrow> d | Some x \<Rightarrow> x)"

definition to_row :: "api_filing \<Rightarrow> filing_row" where
  "to_row filing = \<lparr>cik = api_cik filing, companyName = api_companyName filing,
     formType = api_formType filing, filedAt = api_filedAt filing,
     accessionNumber = api_accessionNo filing, fileLink = api_linkToFilingDetails filing\<rparr>"

text \<open>
  The \<open>while\<close> loop of \<open>query_filings\<close>. Its state is \<open>start\<close> and \<open>filings_list\<close>; the
  queries sent so far are recorded in \<open>sent\<close>, so that the number of page requests can be
  stated. Every iteration that does not leave the loop appends at least one filing, which
  is why the loop ends.
\<close>

function fetch_loop ::
  "api \<Rightarrow> string \<Rightarrow> int \<Rightarrow> int \<Rightarrow> int \<Rightarrow> filing_row list \<Rightarrow> query list
     \<Rightarrow> error + (filing_row list \<times> query list)" where
  "fetch_loop api query_str desired_count page_size start filings_list sent =
     (if int (length filings_list) < desired_count then
        (let query = \<lparr>q_query_string = query_str, q_from = start, q_size = page_size\<rparr> in
         case api query of
           Inl e \<Rightarrow> Inl e
         | Inr result \<Rightarrow>
             (let filings = get_or result [] in
              if filings = [] then Inr (filings_list, sent @ [query])
              else fetch_loop api query_str desired_count page_size (start + page_size)
                     (filings_list @ map to_row filings) (sent @ [query])))
      else Inr (filings_list, sent))"
  by pat_completeness auto
termination
  by (relation "measure (\<lambda>(api, qs, d, p, s, fl, sent). nat (d - int (length fl)))") auto

declare fetch_loop.simps [simp del]

text \<open>
  \<open>random.sample(population, k)\<close>: a \<open>ValueError\<close> when \<open>k\<close> is negative or larger than the
  population, otherwise \<open>k\<close> selections without replacement. The random source is explicit:
  \<open>rb i n\<close> is the \<open>i\<close>-th draw, reduced below the bound \<open>n\<close>. Each selection takes the
  element at the drawn position out of the pool and moves the pool's last element there.
\<close>

type_synonym rng = "nat \<Rightarrow> nat \<Rightarrow> nat"

fun sample_pool :: "rng \<Rightarrow> nat \<Rightarrow> 'a list \<Rightarrow> nat \<Rightarrow> 'a list" where
  "sample_pool rb i pool 0 = []"
| "sample_pool rb i pool (Suc k) =
     (let n = length pool; j = rb i n mod n
      in pool ! j # sample_pool rb (Suc i) (butlast (pool[j := last pool])) k)"

definition random_sample :: "rng \<Rightarrow> 'a list \<Rightarrow> int \<Rightarrow> error + 'a list" where
  "random_sample rb population k =
     (if 0 \<le> k \<and> k \<le> int (length population)
      then Inr (sample_pool rb 0 population (nat k)) else Inl ValueError)"

text \<open>The sampling step after the loop.\<close>

definition sampling_reducer :: "rng \<Rightarrow> 'a list \<Rightarrow> int \<Rightarrow> error + 'a list" where
  "sampling_reducer rb filings_list desired_count =
     (if int (length filings_list) > desired_count
      then random_sample rb filings_list desired_count else Inr filings_list)"

text \<open>What \<open>query_filings\<close> does with the outcome of the loop, and the whole routine.\<close>

definition finish_query ::
  "rng \<Rightarrow> int \<Rightarrow> error + (filing_row list \<times> query list)
     \<Rightarrow> error + (filing_row list \<times> query list)" where
  "finish_query rb desired_count looped =
     (case looped of
        Inl e \<Rightarrow> Inl e
      | Inr (filings_list, sent) \<Rightarrow>
          (case sampling_reducer rb filings_list desired_count of
             Inl e \<Rightarrow> Inl e
           | Inr filings_df \<Rightarrow> Inr (filings_df, sent)))"

definition query_filings ::
  "api \<Rightarrow> rng \<Rightarrow> string \<Rightarrow> int \<Rightarrow> int \<Rightarrow> error + (filing_row list \<times> query list)" where
  "query_filings api rb query_str desired_count page_size =
     finish_query rb desired_count (fetch_loop api query_str desired_count page_size 0 [] [])"

text \<open>
  The mock source of the specification's pagination property: it holds the records
  \<open>recs\<close> and serves the page that starts at \<open>from\<close> and has at most \<open>size\<close> records.
  \<open>ceil_div x p\<close> is the quotient \<open>x / p\<close> rounded up.
\<close>

definition mock_source :: "api_filing list \<Rightarrow> api" where
  "mock_source recs q = Inr (Some (take (nat (q_size q)) (drop (nat (q_from q)) recs)))"

definition ceil_div :: "nat \<Rightarrow> nat \<Rightarrow> nat" where
  "ceil_div x p = (x + p - 1) div p"

definition mock_requests :: "nat \<Rightarrow> nat \<Rightarrow> nat \<Rightarrow> nat" where
  "mock_requests N D P = (if D \<le> N then ceil_div D P else ceil_div N P + 1)"

section \<open>SEC\_API\_Analysis: header enrichment\<close>

text \<open>
  The profile returned by the submissions endpoint is whatever \<open>resp.json()\<close> reads: a
  JSON value as Python holds it. \<open>None\<close> is \<open>JNull\<close>, a \<open>dict\<close> is the list of its items
  (its keys are distinct), a \<open>str\<close> is the list of its code points, and a \<open>float\<close> is
  \<open>m * 2 ^ e\<close>, a zero with a minus sign, an infinity or a NaN.
\<close>

datatype float_value = Finite int int | NegZero | PosInf | NegInf | NaN

datatype json = JNull | JBool bool | JInt int | JFloat float_value | JStr code_points
  | JArr "json list" | JObj "(code_points \<times> json) list"

text \<open>The truth value of a Python object, as \<open>if not state\<close> reads it.\<close>

fun truthy :: "json \<Rightarrow> bool" where
  "truthy JNull = False"
| "truthy (JBool b) = b"
| "truthy (JInt i) = (i \<noteq> 0)"
| "truthy (JFloat f) = (case f of Finite m e \<Rightarrow> m \<noteq> 0 | NegZero \<Rightarrow> False | _ \<Rightarrow> True)"
| "truthy (JStr s) = (s \<noteq> [])"
| "truthy (JArr xs) = (xs \<noteq> [])"
| "truthy (JObj kvs) = (kvs \<noteq> [])"

text \<open>
  \<open>v.get(key, default)\<close>: the entry of a dictionary, the default when the key is missing,
  and an \<open>AttributeError\<close> when \<open>v\<close> is no dictionary (\<open>None\<close>, a string, a number, a
  list have no \<open>get\<close>).
\<close>

definition py_get :: "json \<Rightarrow> string \<Rightarrow> json \<Rightarrow> error + json" where
  "py_get v key dflt =
     (case v of
        JObj kvs \<Rightarrow> Inr (case map_of kvs (of_string key) of None \<Rightarrow> dflt | Some x \<Rightarrow> x)
      | _ \<Rightarrow> Inl AttributeError)"

definition bind_error :: "error + 'a \<Rightarrow> ('a \<Rightarrow> error + 'b) \<Rightarrow> error + 'b" where
  "bind_error m f = (case m of Inl e \<Rightarrow> Inl e | Inr x \<Rightarrow> f x)"

record header_row =
  CIK :: string
  CompanyName :: json
  FormType :: string
  FilingDate :: string
  SIC :: json
  State :: json
  City :: json
  Zip :: json
  AccessionNumber :: string
  FileLink :: string

text \<open>
  \<open>get_submission_data\<close>: the request may raise; a response is its status code and the
  outcome of \<open>resp.json()\<close>, which is only called when the status is 200; any other status
  gives the empty dictionary. \<open>zfill\<close> is \<open>str.zfill\<close>, which pads with zeros after a
  leading sign.
\<close>

record submission_response =
  sr_status :: int
  sr_json :: "error + json"

definition zfill :: "nat \<Rightarrow> string \<Rightarrow> string" where
  "zfill width s =
     (case s of
        c # t \<Rightarrow>
          if c = CHR ''+'' \<or> c = CHR ''-'' then c # replicate (width - length s) CHR ''0'' @ t
          else replicate (width - length s) CHR ''0'' @ s
      | [] \<Rightarrow> replicate width CHR ''0'')"

definition get_submission_data ::
  "(string \<Rightarrow> error + submission_response) \<Rightarrow> string \<Rightarrow> error + json" where
  "get_submission_data requests_get cik_value =
     (let cik_str = zfill 10 cik_value;
          url = ''https://data.sec.gov/submissions/CIK'' @ cik_str @ ''.json''
      in case requests_get url of
           Inl e \<Rightarrow> Inl e
         | Inr resp \<Rightarrow> if sr_status resp = 200 then sr_json resp else Inr (JObj []))"

text \<open>
  The body of the loop of \<open>enrich_header_data\<close>, for one row and its profile, and the
  list \<open>header_data\<close> that the loop builds. The data frame made of that list and the
  conversion of its dates are not modelled.
\<close>

definition enrich_row :: "filing_row \<Rightarrow> json \<Rightarrow> error + header_row" where
  "enrich_row row submission =
     bind_error (py_get submission ''stateOfIncorporation'' (JStr [])) (\<lambda>state.
     bind_error
       (if \<not> truthy state then
          bind_error (py_get submission ''businessAddress'' (JObj [])) (\<lambda>business.
          bind_error (py_get business ''state'' (JStr [])) (\<lambda>state.
            if \<not> truthy state then
              bind_error (py_get submission ''mailingAddress'' (JObj [])) (\<lambda>mailing.
                py_get mailing ''state'' (JStr []))
            else Inr state))
        else Inr state) (\<lambda>state.
     bind_error (py_get submission ''name'' (JStr (of_string (companyName row)))) (\<lambda>name.
     bind_error (py_get submission ''sic'' (JStr [])) (\<lambda>sic.
     bind_error (py_get submission ''businessAddress'' (JObj [])) (\<lambda>business.
     bind_error (py_get business ''city'' (JStr [])) (\<lambda>city.
     bind_error (py_get submission ''businessAddress'' (JObj [])) (\<lambda>business.
     bind_error (py_get business ''zip'' (JStr [])) (\<lambda>zip.
       Inr \<lparr>CIK = cik row,
            CompanyName = name,
            FormType = formType row,
            FilingDate = filedAt row,
            SIC = sic,
            State = state,
            City = city,
            Zip = zip,
            AccessionNumber = accessionNumber row,
            FileLink = fileLink row\<rparr>))))))))"

fun header_data ::
  "(string \<Rightarrow> error + submission_response) \<Rightarrow> filing_row list \<Rightarrow> error + header_row list" where
  "header_data requests_get [] = Inr []"
| "header_data requests_get (row # rows) =
     bind_error (get_submission_data requests_get (cik row)) (\<lambda>submission.
     bind_error (enrich_row row submission) (\<lambda>header.
     bind_error (header_data requests_get rows) (\<lambda>headers. Inr (header # headers))))"

text \<open>
  The fallback chain in the words of the specification. \<open>entry\<close> is the entry of a
  dictionary, if there is one; the candidates are the three state entries in order, a
  missing one read as the empty string; the first non-empty one wins, and the empty
  string is the result otherwise. A profile is plain when its state entries are strings
  and its address entries are dictionaries, wherever they are present.
\<close>

definition entry :: "json \<Rightarrow> string \<Rightarrow> json option" where
  "entry v key = (case v of JObj kvs \<Rightarrow> map_of kvs (of_string key) | _ \<Rightarrow> None)"









section \<open>SEC\_API\_Analysis: the document fetcher\<close>

text \<open>
  The parse tree that \<open>BeautifulSoup\<close> builds: a node is a string or a tag with a name
  and children (attributes are not read by this program). A string has the class the
  parser gave it: \<open>NavigableString\<close> for ordinary text, \<open>CData\<close>, \<open>Comment\<close>,
  \<open>Declaration\<close>, \<open>Doctype\<close> and \<open>ProcessingInstruction\<close> for markup of those kinds, and
  \<open>Script\<close>, \<open>Stylesheet\<close>, \<open>TemplateString\<close>, \<open>RubyTextString\<close> and
  \<open>RubyParenthesisString\<close> for the strings inside \<open>script\<close>, \<open>style\<close>, \<open>template\<close>, \<open>rt\<close>
  and \<open>rp\<close> tags. The soup itself is the root tag. The operations are those of the
  library that \<open>get_filing_text\<close> calls: \<open>find_all(name)\<close> lists the descendant tags of
  that name in document order, \<open>find(name)\<close> is the first of them, \<open>get_text()\<close>
  concatenates the strings below a tag whose class is one of the tag's interesting
  classes (\<open>NavigableString\<close> and \<open>CData\<close>, unless the tag is one of the five
  containers above), and \<open>get_text(separator=" ", strip=True)\<close> strips each of these
  strings, drops the empty ones and joins the rest with single spaces.
\<close>

datatype string_class = NavigableString | CData | Comment | Declaration | Doctype
  | ProcessingInstruction | Script | Stylesheet | TemplateString | RubyTextString
  | RubyParenthesisString

datatype node = Text string_class string | Tag string "node list"

fun children :: "node \<Rightarrow> node list" where
  "children (Text k s) = []"
| "children (Tag name cs) = cs"

fun find_all_in :: "string \<Rightarrow> node list \<Rightarrow> node list" where
  "find_all_in name [] = []"
| "find_all_in name (Text k s # ns) = find_all_in name ns"
| "find_all_in name (Tag t cs # ns) =
     (if t = name then [Tag t cs] else []) @ find_all_in name cs @ find_all_in name ns"

definition find_all :: "string \<Rightarrow> node \<Rightarrow> node list" where
  "find_all name n = find_all_in name (children n)"

definition find_first :: "string \<Rightarrow> node \<Rightarrow> node option" where
  "find_first name n = (case find_all name n of [] \<Rightarrow> None | t # _ \<Rightarrow> Some t)"

definition interesting_string_types :: "node \<Rightarrow> string_class list" where
  "interesting_string_types n =
     (case n of
        Text k s \<Rightarrow> [NavigableString, CData]
      | Tag name cs \<Rightarrow>
          if name = ''rt'' then [RubyTextString]
          else if name = ''rp'' then [RubyParenthesisString]
          else if name = ''style'' then [Stylesheet]
          else if name = ''script'' then [Script]
          else if name = ''template'' then [TemplateString]
          else [NavigableString, CData])"

fun strings_in :: "string_class list \<Rightarrow> node list \<Rightarrow> string list" where
  "strings_in types [] = []"
| "strings_in types (Text k s # ns) =
     (if k \<in> set types then [s] else []) @ strings_in types ns"
| "strings_in types (Tag t cs # ns) = strings_in types cs @ strings_in types ns"

definition strings_of :: "node \<Rightarrow> string list" where
  "strings_of n =
     (case n of
        Text k s \<Rightarrow> strings_in (interesting_string_types n) [n]
      | Tag name cs \<Rightarrow> strings_in (interesting_string_types n) cs)"

definition get_text :: "node \<Rightarrow> string" where
  "get_text n = concat (strings_of n)"

fun join :: "string \<Rightarrow> string list \<Rightarrow> string" where
  "join sep [] = []"
| "join sep [x] = x"
| "join sep (x # y # ys) = x @ sep @ join sep (y # ys)"

definition get_text_sep_strip :: "node \<Rightarrow> string" where
  "get_text_sep_strip n = join '' '' (filter (\<lambda>s. s \<noteq> []) (map strip (strings_of n)))"

text \<open>
  The response of \<open>requests.get\<close>, and \<open>get_filing_text\<close>. The network and the parser
  are parameters; either may raise, inside the \<open>try\<close> block. \<open>first_10k\<close> is the \<open>for\<close>
  loop over the document blocks.
\<close>

record response =
  status_code :: int
  resp_text :: string

fun first_10k :: "node list \<Rightarrow> string option" where
  "first_10k [] = None"
| "first_10k (doc # docs) =
     (case find_first ''type'' doc of
        None \<Rightarrow> first_10k docs
      | Some type_tag \<Rightarrow>
          if strip (get_text type_tag) = ''10-K'' then Some (get_text_sep_strip doc)
          else first_10k docs)"

definition get_filing_text ::
  "(string \<Rightarrow> error + response) \<Rightarrow> (string \<Rightarrow> error + node) \<Rightarrow> string \<Rightarrow> string" where
  "get_filing_text requests_get parse file_link =
     (case requests_get file_link of
        Inl e \<Rightarrow> []
      | Inr response \<Rightarrow>
          if status_code response = 200 then
            (case parse (resp_text response) of
               Inl e \<Rightarrow> []
             | Inr soup \<Rightarrow>
                 (case first_10k (find_all ''document'' soup) of
                    Some text10k \<Rightarrow> text10k
                  | None \<Rightarrow> get_text_sep_strip soup))
          else [])"

text \<open>
  In the words of the specification: a block matches the target type when it has a type
  label whose text, trimmed, equals the target exactly.
\<close>

definition type_label_is :: "string \<Rightarrow> node \<Rightarrow> bool" where
  "type_label_is target doc =
     (case find_first ''type'' doc of None \<Rightarrow> False
      | Some type_tag \<Rightarrow> strip (get_text type_tag) = target)"

section \<open>SEC\_API\_Analysis: the field extractors\<close>

text \<open>
  \<open>extract_item1_business\<close>. Its pattern
  \<open>ITEM\s+1\s*\.?\s*BUSINESS.*?(?=ITEM\s+1A\s*\.?\s*RISK\s+FACTORS)\<close> is the start marker,
  the lazy \<open>.*?\<close> and the lookahead for the end marker, under \<open>IGNORECASE\<close> and
  \<open>DOTALL\<close>.
\<close>

definition item1_start :: re where
  "item1_start = seqs [lit ''ITEM'', ws1, lit ''1'', ws0, Opt (lit ''.''), ws0, lit ''BUSINESS'']"

definition item1_end :: re where
  "item1_end = seqs [lit ''ITEM'', ws1, lit ''1A'', ws0, Opt (lit ''.''), ws0, lit ''RISK'', ws1,
     lit ''FACTORS'']"

definition item1_pattern :: re where
  "item1_pattern = Seq item1_start (Seq (Rep AnyChar 0 False) (Ahead item1_end))"

definition extract_item1_business :: "string \<Rightarrow> string" where
  "extract_item1_business text =
     (case findall True item1_pattern text of [] \<Rightarrow> [] | m # _ \<Rightarrow> m)"

text \<open>
  \<open>extract_ai_sentences\<close>: the text is split at \<open>(?<=[.!?])\s+\<close> and the pieces in which
  \<open>artificial intelligence\<close> is found, ignoring case, are kept.
\<close>

definition pattern_ai :: re where
  "pattern_ai = lit ''artificial intelligence''"

definition sentence_end :: re where
  "sentence_end = Seq (Behind (OneOf ''.!?'')) (Rep Space 1 True)"

definition extract_ai_sentences :: "string \<Rightarrow> string list" where
  "extract_ai_sentences text =
     filter (\<lambda>s. re_search True pattern_ai s \<noteq> None) (re_split False sentence_end text)"

subsection \<open>The extractors in the words of the specification\<close>

text \<open>
  A marker occurs in a text when its pattern matches at some position of it;
  \<open>follows_from ic a b\<close> holds when somewhere \<open>a\<close> matches and \<open>b\<close> occurs in the text
  after that match.
\<close>

fun occurs_from :: "bool \<Rightarrow> re \<Rightarrow> char option \<Rightarrow> string \<Rightarrow> bool" where
  "occurs_from ic r pc [] = (ms ic r (pc, []) \<noteq> [])"
| "occurs_from ic r pc (c # t) = (ms ic r (pc, c # t) \<noteq> [] \<or> occurs_from ic r (Some c) t)"

definition occurs :: "bool \<Rightarrow> re \<Rightarrow> string \<Rightarrow> bool" where
  "occurs ic r s = occurs_from ic r None s"

fun follows_from :: "bool \<Rightarrow> re \<Rightarrow> re \<Rightarrow> char option \<Rightarrow> string \<Rightarrow> bool" where
  "follows_from ic a b pc [] =
     list_ex (\<lambda>(g, (qc, t)). occurs_from ic b qc t) (ms ic a (pc, []))"
| "follows_from ic a b pc (c # t) =
     (list_ex (\<lambda>(g, (qc, u)). occurs_from ic b qc u) (ms ic a (pc, c # t))
      \<or> follows_from ic a b (Some c) t)"

definition follows :: "bool \<Rightarrow> re \<Rightarrow> re \<Rightarrow> string \<Rightarrow> bool" where
  "follows ic a b s = follows_from ic a b None s"

text \<open>
  Sentences: a sentence ends at a \<open>.\<close>, \<open>!\<close> or \<open>?\<close> that is followed by whitespace, and
  the run of whitespace after it belongs to no sentence.
\<close>

definition terminal :: "char \<Rightarrow> bool" where
  "terminal c = (c \<in> set ''.!?'')"

fun cons_first :: "'a \<Rightarrow> 'a list list \<Rightarrow> 'a list list" where
  "cons_first c [] = [[c]]"
| "cons_first c (p # ps) = (c # p) # ps"

function sentences :: "string \<Rightarrow> string list" where
  "sentences [] = [[]]"
| "sentences (c # t) =
     (if terminal c \<and> (case t of [] \<Rightarrow> False | d # _ \<Rightarrow> is_space d)
      then [c] # sentences (dropWhile is_space t)
      else cons_first c (sentences t))"
  by pat_completeness auto
termination
  by (relation "measure length") (auto simp: less_Suc_eq_le length_dropWhile_le)

declare sentences.simps(2) [simp del]

section \<open>SEC\_Scrape\_Analysis: the tag extractors\<close>

text \<open>
  Two methods of \<open>str\<close>: \<open>s.replace(old, new)\<close> replaces the occurrences of \<open>old\<close> from
  left to right, and \<open>s.split()\<close> lists the maximal runs of characters that are not
  whitespace.
\<close>

function replace :: "string \<Rightarrow> string \<Rightarrow> string \<Rightarrow> string" where
  "replace old new [] = (if old = [] then new else [])"
| "replace old new (c # t) =
     (if old = [] then new @ c # replace old new t
      else if prefix old (c # t) then new @ replace old new (drop (length old) (c # t))
      else c # replace old new t)"
  by pat_completeness auto
termination
  by (relation "measure (\<lambda>(old, new, s). length s)") auto

declare replace.simps(2) [simp del]

fun split_acc :: "string \<Rightarrow> string \<Rightarrow> string list" where
  "split_acc cur [] = (if cur = [] then [] else [cur])"
| "split_acc cur (c # t) =
     (if is_space c then (if cur = [] then split_acc [] t else cur # split_acc [] t)
      else split_acc (cur @ [c]) t)"

definition split_ws :: "string \<Rightarrow> string list" where
  "split_ws s = split_acc [] s"

text \<open>
  \<open>extract_is_officer\<close>, with the pattern
  \<open><\s*isOfficer\s*>\s*(\d+)\s*<\s*/\s*isOfficer\s*>\<close> under \<open>IGNORECASE\<close>. The opening
  and the closing tag are named, the pattern is their sequence around the value.
\<close>

definition open_tag :: "string \<Rightarrow> re" where
  "open_tag name = seqs [lit ''<'', ws0, lit name, ws0, lit ''>'']"

definition close_tag :: "string \<Rightarrow> re" where
  "close_tag name = seqs [lit ''<'', ws0, lit ''/'', ws0, lit name, ws0, lit ''>'']"

definition is_officer_pattern :: re where
  "is_officer_pattern =
     Seq (open_tag ''isOfficer'')
       (Seq ws0 (Seq (Group (Rep Digit 1 True)) (Seq ws0 (close_tag ''isOfficer''))))"

definition extract_is_officer :: "string \<Rightarrow> string option" where
  "extract_is_officer text =
     (case re_search True is_officer_pattern text of
        None \<Rightarrow> None
      | Some m \<Rightarrow> Some (strip (group1 m)))"

text \<open>
  \<open>extract_officer_title\<close>, with the pattern
  \<open><\s*officerTitle\s*>\s*(.*?)\s*<\s*/\s*officerTitle\s*>\<close> under \<open>IGNORECASE\<close> and
  \<open>DOTALL\<close>.
\<close>

definition officer_title_pattern :: re where
  "officer_title_pattern =
     Seq (open_tag ''officerTitle'')
       (Seq ws0 (Seq (Group (Rep AnyChar 0 False)) (Seq ws0 (close_tag ''officerTitle''))))"

definition extract_officer_title :: "string \<Rightarrow> code_points" where
  "extract_officer_title text =
     (case re_search True officer_title_pattern text of
        None \<Rightarrow> of_string ''UNKNOWN''
      | Some m \<Rightarrow>
          (let title = group1 m;
               title_clean = replace '','' [] (replace ''&amp;'' [] title)
           in upper (join '' '' (split_ws title_clean))))"

text \<open>
  \<open>extract_transaction_type\<close>, with the pattern \<open><\s*transactionAcquiredDisposedCode\s*>\<close>
  \<open>\s*<\s*value\s*>\s*([AD])\s*<\s*/\s*value\s*>\s*<\s*/\s*transactionAcquiredDisposedCode\s*>\<close>
  under \<open>IGNORECASE\<close>.
\<close>

definition transaction_type_pattern :: re where
  "transaction_type_pattern =
     Seq (open_tag ''transactionAcquiredDisposedCode'')
       (Seq ws0 (Seq (open_tag ''value'')
         (Seq ws0 (Seq (Group (Atom (OneOf ''AD'')))
           (Seq ws0 (Seq (close_tag ''value'')
             (Seq ws0 (close_tag ''transactionAcquiredDisposedCode''))))))))"

definition extract_transaction_type :: "string \<Rightarrow> code_points option" where
  "extract_transaction_type text =
     (case re_search True transaction_type_pattern text of
        None \<Rightarrow> None
      | Some m \<Rightarrow> Some (upper (strip (group1 m))))"

section \<open>Properties of the paginated query\<close>

lemma mset_pool_step:
  "j < length pool \<Longrightarrow> add_mset (pool ! j) (mset (butlast (pool[j := last pool]))) = mset pool"
proof (induction pool rule: rev_induct)
  case Nil
  then show ?case by simp
next
  case (snoc l xs)
  show ?case
  proof (cases "j < length xs")
    case True
    then have "xs ! j \<in># mset xs" by simp
    with True show ?thesis
      by (simp add: list_update_append nth_append mset_update)
  next
    case False
    with snoc.prems have "j = length xs" by simp
    then show ?thesis by simp
  qed
qed

lemma sample_pool_props:
  "k \<le> length pool \<Longrightarrow>
     length (sample_pool rb i pool k) = k \<and> mset (sample_pool rb i pool k) \<subseteq># mset pool"
proof (induction k arbitrary: i pool)
  case 0
  then show ?case by simp
next
  case (Suc k)
  let ?n = "length pool"
  let ?j = "rb i ?n mod ?n"
  let ?pool' = "butlast (pool[?j := last pool])"
  from Suc.prems have pos: "0 < ?n" by (cases pool) simp_all
  then have j: "?j < ?n" by simp
  have len: "k \<le> length ?pool'" using Suc.prems by simp
  from Suc.IH [OF len, of "Suc i"]
  have ih: "length (sample_pool rb (Suc i) ?pool' k) = k"
    "mset (sample_pool rb (Suc i) ?pool' k) \<subseteq># mset ?pool'" by simp_all
  have "add_mset (pool ! ?j) (mset (sample_pool rb (Suc i) ?pool' k))
        \<subseteq># add_mset (pool ! ?j) (mset ?pool')"
    using ih(2) by simp
  also have "\<dots> = mset pool" using mset_pool_step [OF j] .
  finally show ?case using ih(1) by (simp add: Let_def)
qed

lemma ceil_unique:
  fixes k P X :: nat
  assumes "0 < P" "X \<le> k * P" "k = 0 \<or> (k - 1) * P < X"
  shows "(X + P - 1) div P = k"
proof (rule div_nat_eqI)
  show "X + P - 1 < P * Suc k" using assms(1,2) by (simp add: mult.commute)
  show "P * k \<le> X + P - 1"
  proof (cases k)
    case 0
    then show ?thesis by simp
  next
    case (Suc m)
    with assms(3) have "m * P < X" by simp
    then have "m * P + P \<le> X + P - 1" using assms(1) by simp
    then show ?thesis using Suc by (simp add: mult.commute)
  qed
qed


lemma fetch_loop_mock:
  assumes P: "0 < P" and d: "0 \<le> desired"
    and pre: "k = 0 \<or> (k - 1) * P < min (length recs) (nat desired)"
  shows "\<exists>fl sent'.
           fetch_loop (mock_source recs) qs desired (int P) (int (k * P))
             (map to_row (take (k * P) recs)) sent = Inr (fl, sent')
           \<and> (nat desired \<le> length recs \<longrightarrow> nat desired \<le> length fl \<and> length fl \<le> length recs)
           \<and> (length recs < nat desired \<longrightarrow> length fl = length recs)
           \<and> length sent' + k = length sent + mock_requests (length recs) (nat desired) P"
  using pre
proof (induction "min (length recs) (nat desired) + P - k * P" arbitrary: k sent rule: less_induct)
  case less
  define s where "s = k * P"
  define s' where "s' = Suc k * P"
  let ?N = "length recs"
  let ?D = "nat desired"
  let ?acc = "map to_row (take s recs)"
  let ?q = "\<lparr>q_query_string = qs, q_from = int s, q_size = int P\<rparr>"
  have c: "length ?acc = min s ?N" by (simp add: min.commute)
  have s's: "s' = s + P" by (simp add: s_def s'_def)
  have goal: "\<exists>fl sent'.
           fetch_loop (mock_source recs) qs desired (int P) (int s) ?acc sent = Inr (fl, sent')
           \<and> (?D \<le> ?N \<longrightarrow> ?D \<le> length fl \<and> length fl \<le> ?N)
           \<and> (?N < ?D \<longrightarrow> length fl = ?N)
           \<and> length sent' + k = length sent + mock_requests ?N ?D P"
  proof (cases "int (length ?acc) < desired")
    case False
    then have DkP: "?D \<le> k * P" and DN: "?D \<le> ?N" using d c by (auto simp: s_def)
    have "ceil_div ?D P = k" unfolding ceil_div_def
      using P DkP less.prems DN by (intro ceil_unique) auto
    then have "mock_requests ?N ?D P = k" using DN by (simp add: mock_requests_def)
    moreover have "fetch_loop (mock_source recs) qs desired (int P) (int s) ?acc sent
                   = Inr (?acc, sent)"
      using False by (subst fetch_loop.simps) simp
    ultimately show ?thesis using False DN d c by auto
  next
    case True
    then have cD: "min s ?N < ?D" using c by auto
    have page: "mock_source recs ?q = Inr (Some (take P (drop s recs)))"
      by (simp add: mock_source_def)
    show ?thesis
    proof (cases "s < ?N")
      case False
      then have NkP: "?N \<le> k * P" by (simp add: s_def)
      then have ND: "?N < ?D" using cD by (simp add: s_def)
      have "ceil_div ?N P = k" unfolding ceil_div_def
        using P NkP less.prems ND by (intro ceil_unique) auto
      then have "mock_requests ?N ?D P = k + 1" using ND by (simp add: mock_requests_def)
      moreover have "fetch_loop (mock_source recs) qs desired (int P) (int s) ?acc sent
                   = Inr (?acc, sent @ [?q])"
        using True False by (subst fetch_loop.simps) (simp add: page Let_def get_or_def)
      ultimately show ?thesis using ND False by auto
    next
      case kN: True
      then have kD: "s < ?D" using cD by simp
      have ne: "take P (drop s recs) \<noteq> []" using kN P by simp
      have acc': "?acc @ map to_row (take P (drop s recs)) = map to_row (take s' recs)"
        by (simp add: s's take_add flip: map_append)
      have start': "int s + int P = int s'" by (simp add: s's)
      have step: "fetch_loop (mock_source recs) qs desired (int P) (int s) ?acc sent
            = fetch_loop (mock_source recs) qs desired (int P) (int s')
                (map to_row (take s' recs)) (sent @ [?q])"
        using True ne
        by (subst fetch_loop.simps) (simp add: page Let_def get_or_def acc' start')
      have m: "min ?N ?D + P - Suc k * P < min ?N ?D + P - k * P"
        using kN kD P by (simp add: s_def)
      have pre': "Suc k = 0 \<or> (Suc k - 1) * P < min ?N ?D" using kN kD by (simp add: s_def)
      from less.hyps [OF m pre', of "sent @ [?q]"] step
      show ?thesis unfolding s'_def by auto
    qed
  qed
  then show ?case unfolding s_def .
qed


lemma fetch_loop_raise:
  "int (length fl) < desired \<Longrightarrow>
   api \<lparr>q_query_string = qs, q_from = start, q_size = P\<rparr> = Inl e \<Longrightarrow>
   fetch_loop api qs desired P start fl sent = Inl e"
  by (subst fetch_loop.simps) simp

lemma fetch_loop_exhausted:
  "int (length fl) < desired \<Longrightarrow>
   api \<lparr>q_query_string = qs, q_from = start, q_size = P\<rparr> = Inr result \<Longrightarrow>
   get_or result [] = [] \<Longrightarrow>
   fetch_loop api qs desired P start fl sent
     = Inr (fl, sent @ [\<lparr>q_query_string = qs, q_from = start, q_size = P\<rparr>])"
  by (subst fetch_loop.simps) simp

lemma fetch_loop_reached:
  "desired \<le> int (length fl) \<Longrightarrow> fetch_loop api qs desired P start fl sent = Inr (fl, sent)"
  by (subst fetch_loop.simps) simp

lemma sampling_reducer_props:
  assumes "0 \<le> target"
  shows "\<exists>out. sampling_reducer rb records target = Inr out
      \<and> int (length out) = min (int (length records)) target
      \<and> (int (length records) \<le> target \<longrightarrow> out = records)
      \<and> (target < int (length records) \<longrightarrow> mset out \<subseteq># mset records)"
proof (cases "target < int (length records)")
  case True
  then have k: "nat target \<le> length records" by simp
  from sample_pool_props [OF k, of rb 0] True assms show ?thesis
    by (simp add: sampling_reducer_def random_sample_def)
next
  case False
  then show ?thesis by (simp add: sampling_reducer_def)
qed

lemma query_filings_mock_run:
  assumes "0 \<le> desired_count" and "1 \<le> page_size"
  shows "\<exists>rows sent.
           query_filings (mock_source recs) rb qs desired_count page_size = Inr (rows, sent)
         \<and> int (length rows) = min (int (length recs)) desired_count
         \<and> length sent = mock_requests (length recs) (nat desired_count) (nat page_size)"
proof -
  have P: "0 < nat page_size" and ps: "int (nat page_size) = page_size" using assms(2) by simp_all
  have "\<exists>fl sent'.
           fetch_loop (mock_source recs) qs desired_count (int (nat page_size)) (int (0 * nat page_size))
             (map to_row (take (0 * nat page_size) recs)) [] = Inr (fl, sent')
           \<and> (nat desired_count \<le> length recs \<longrightarrow> nat desired_count \<le> length fl \<and> length fl \<le> length recs)
           \<and> (length recs < nat desired_count \<longrightarrow> length fl = length recs)
           \<and> length sent' + 0 = length ([] :: query list)
                + mock_requests (length recs) (nat desired_count) (nat page_size)"
    by (rule fetch_loop_mock [OF P assms(1)]) simp
  then obtain fl sent' where
    loop: "fetch_loop (mock_source recs) qs desired_count page_size 0 [] [] = Inr (fl, sent')"
    and ge: "nat desired_count \<le> length recs \<longrightarrow> nat desired_count \<le> length fl \<and> length fl \<le> length recs"
    and lt: "length recs < nat desired_count \<longrightarrow> length fl = length recs"
    and n: "length sent' = mock_requests (length recs) (nat desired_count) (nat page_size)"
    unfolding ps by auto
  from sampling_reducer_props [OF assms(1), of rb fl]
  obtain out where red: "sampling_reducer rb fl desired_count = Inr out"
    and len: "int (length out) = min (int (length fl)) desired_count" by auto
  have "int (length out) = min (int (length recs)) desired_count"
    using len ge lt assms(1) by (cases "nat desired_count \<le> length recs") auto
  then show ?thesis using loop red n by (simp add: query_filings_def finish_query_def)
qed

lemma mock_requests_bound:
  "0 < P \<Longrightarrow> mock_requests N D P \<le> ceil_div (min N D) P + 1"
  by (simp add: mock_requests_def min_def)

text \<open>
  C2, as the code has it: a page request whose result holds no filings (an empty or a
  missing \<open>filings\<close> entry) is treated as exhaustion, the loop stops after that request
  and the records collected so far are returned unchanged; a page request that raises is
  not caught, and the exception leaves \<open>query_filings\<close>.
\<close>

theorem query_filings_failed_page:
  "int (length filings_list) < desired_count \<Longrightarrow>
     (api \<lparr>q_query_string = qs, q_from = start, q_size = page_size\<rparr> = Inl e \<longrightarrow>
        finish_query rb desired_count
          (fetch_loop api qs desired_count page_size start filings_list sent) = Inl e)
   \<and> (api \<lparr>q_query_string = qs, q_from = start, q_size = page_size\<rparr> = Inr result
        \<and> get_or result [] = [] \<longrightarrow>
        finish_query rb desired_count
          (fetch_loop api qs desired_count page_size start filings_list sent)
        = Inr (filings_list, sent @ [\<lparr>q_query_string = qs, q_from = start, q_size = page_size\<rparr>]))"
  by (auto simp: fetch_loop_raise fetch_loop_exhausted finish_query_def sampling_reducer_def)

theorem query_filings_failed_page_witness:
  "query_filings (\<lambda>q. Inr None) (\<lambda>i n. 0) ''formType:10-K'' 500 200
     = Inr ([], [\<lparr>q_query_string = ''formType:10-K'', q_from = 0, q_size = 200\<rparr>])"
  using query_filings_failed_page [where filings_list = "[]" and desired_count = 500
      and api = "\<lambda>q. Inr None" and qs = "''formType:10-K''" and start = 0
      and page_size = 200 and result = None and rb = "\<lambda>i n. 0" and sent = "[]"]
  by (simp add: query_filings_def get_or_def)

text \<open>
  The claim C2 as stated fails: when the first page request raises, \<open>query_filings\<close>
  raises too instead of returning the (empty) list collected so far.
\<close>

theorem query_filings_exception_propagates:
  "query_filings (\<lambda>q. Inl (ApiError ''API error: 500'')) (\<lambda>i n. 0) ''formType:10-K'' 500 200
     = Inl (ApiError ''API error: 500'')
   \<and> \<not> (\<exists>sent. query_filings (\<lambda>q. Inl (ApiError ''API error: 500'')) (\<lambda>i n. 0)
          ''formType:10-K'' 500 200 = Inr ([], sent))"
  by (simp add: query_filings_def fetch_loop_raise finish_query_def)

text \<open>
  C3, as the code has it: for a target of at least 0 and pages of size at least 1, against
  a mock source of \<open>N\<close> records \<open>query_filings\<close> returns exactly \<open>min N desired_count\<close>
  records; it sends \<open>ceil (desired_count / page_size)\<close> page requests when the source
  holds at least the target, and \<open>ceil (N / page_size) + 1\<close> when it holds fewer (the last
  request is the one that returns no record), so at most
  \<open>ceil (min N desired_count / page_size) + 1\<close>. The loop stops as soon as the count
  reaches the target, and when a page returns no record.
\<close>

theorem query_filings_mock_pagination:
  assumes "0 \<le> desired_count" and "1 \<le> page_size"
  shows "(\<exists>rows sent.
           query_filings (mock_source recs) rb qs desired_count page_size = Inr (rows, sent)
         \<and> int (length rows) = min (int (length recs)) desired_count
         \<and> length sent = (if nat desired_count \<le> length recs
                            then ceil_div (nat desired_count) (nat page_size)
                            else ceil_div (length recs) (nat page_size) + 1)
         \<and> length sent \<le> ceil_div (min (length recs) (nat desired_count)) (nat page_size) + 1)
       \<and> (desired_count \<le> int (length fl) \<longrightarrow>
            fetch_loop api qs desired_count page_size start fl sent0 = Inr (fl, sent0))
       \<and> (int (length fl) < desired_count
            \<and> api \<lparr>q_query_string = qs, q_from = start, q_size = page_size\<rparr> = Inr result
            \<and> get_or result [] = [] \<longrightarrow>
            fetch_loop api qs desired_count page_size start fl sent0
              = Inr (fl, sent0 @ [\<lparr>q_query_string = qs, q_from = start, q_size = page_size\<rparr>]))"
proof -
  have P: "0 < nat page_size" using assms(2) by simp
  from query_filings_mock_run [OF assms, of recs rb qs]
  obtain rows sent where
    run: "query_filings (mock_source recs) rb qs desired_count page_size = Inr (rows, sent)"
    "int (length rows) = min (int (length recs)) desired_count"
    "length sent = mock_requests (length recs) (nat desired_count) (nat page_size)" by blast
  have "length sent \<le> ceil_div (min (length recs) (nat desired_count)) (nat page_size) + 1"
    using run(3) mock_requests_bound [OF P] by simp
  with run show ?thesis
    by (auto simp: mock_requests_def fetch_loop_reached fetch_loop_exhausted)
qed

theorem query_filings_mock_pagination_witness:
  "\<exists>rows sent.
     query_filings (mock_source (replicate 5 \<lparr>api_cik = ''1'', api_companyName = ''A'',
         api_formType = ''10-K'', api_filedAt = ''2023-01-02'', api_accessionNo = ''a'',
         api_linkToFilingDetails = ''l''\<rparr>)) (\<lambda>i n. 0) ''q'' 3 2 = Inr (rows, sent)
     \<and> length rows = 3 \<and> length sent = 2"
  using query_filings_mock_pagination [where desired_count = 3 and page_size = 2
      and recs = "replicate 5 \<lparr>api_cik = ''1'',
         api_companyName = ''A'', api_formType = ''10-K'', api_filedAt = ''2023-01-02'',
         api_accessionNo = ''a'', api_linkToFilingDetails = ''l''\<rparr>"
      and rb = "\<lambda>i n. 0" and qs = "''q''" and fl = "[]" and api = "\<lambda>q. Inr None"
      and start = 0 and ?sent0.0 = "[]" and result = None]
  by (auto simp: ceil_div_def)

text \<open>
  The claim C3 as stated fails: a source with one record, asked for two in pages of one,
  is sent two page requests, more than \<open>ceil (min 1 2 / 1) = 1\<close>.
\<close>

theorem query_filings_mock_extra_request:
  "\<exists>rows sent.
     query_filings (mock_source [\<lparr>api_cik = ''1'', api_companyName = ''A'',
         api_formType = ''10-K'', api_filedAt = ''2023-01-02'', api_accessionNo = ''a'',
         api_linkToFilingDetails = ''l''\<rparr>]) (\<lambda>i n. 0) ''q'' 2 1 = Inr (rows, sent)
     \<and> length rows = 1 \<and> length sent = 2 \<and> ceil_div (min 1 2) 1 = 1
     \<and> \<not> length sent \<le> ceil_div (min 1 2) 1"
  using query_filings_mock_run [of 2 1 "[\<lparr>api_cik = ''1'', api_companyName = ''A'',
         api_formType = ''10-K'', api_filedAt = ''2023-01-02'', api_accessionNo = ''a'',
         api_linkToFilingDetails = ''l''\<rparr>]" "\<lambda>i n. 0" "''q''"]
  by (auto simp: mock_requests_def ceil_div_def)

lemma sampling_reducer_negative:
  "targetCount < 0 \<Longrightarrow> sampling_reducer rb records targetCount = Inl ValueError"
  by (simp add: sampling_reducer_def random_sample_def)

text \<open>
  C4: for every list of records and every target count (a count is at least 0), the
  sampling step returns a list of length \<open>min (len records) targetCount\<close>; the input
  unchanged when it is not longer than the target; otherwise exactly \<open>targetCount\<close> of
  the input's elements, drawn without replacement: no element is taken more often than
  it occurs in the input.
\<close>

theorem sampling_reducer_size:
  "0 \<le> targetCount \<Longrightarrow>
     \<exists>out. sampling_reducer rb records targetCount = Inr out
      \<and> int (length out) = min (int (length records)) targetCount
      \<and> (int (length records) \<le> targetCount \<longrightarrow> out = records)
      \<and> (targetCount < int (length records) \<longrightarrow>
            int (length out) = targetCount \<and> mset out \<subseteq># mset records)"
  using sampling_reducer_props [of targetCount rb records] by auto

theorem sampling_reducer_size_witness:
  "(0::int) \<le> 2 \<and> (\<exists>out. sampling_reducer (\<lambda>i n. 0) [''a'', ''b'', ''c''] 2 = Inr out
      \<and> int (length out) = 2 \<and> mset out \<subseteq># mset [''a'', ''b'', ''c''])"
  using sampling_reducer_size [of 2 "\<lambda>i n. 0" "[''a'', ''b'', ''c'']"] by simp

section \<open>Properties of the header enrichment\<close>





lemma bind_error_simps [simp]:
  "bind_error (Inl e) f = Inl e"
  "bind_error (Inr x) f = f x"
  by (simp_all add: bind_error_def)

lemma entry_empty [simp]: "entry (JObj []) key = None"
  by (simp add: entry_def)











section \<open>Properties of the document fetcher\<close>

lemma first_10k_find:
  "first_10k docs = map_option get_text_sep_strip (List.find (type_label_is ''10-K'') docs)"
  by (induction docs) (auto simp: type_label_is_def split: option.splits)

text \<open>
  C7, as the code has it: \<open>get_filing_text\<close> returns the empty string when the request
  raises, when the status is not 200 and when parsing raises; otherwise it returns the
  text of the first document block whose type label, trimmed, equals \<open>10-K\<close> exactly, and
  the text of the whole page when no block matches. The text of a block or page is made
  of its strings of ordinary text, each trimmed, the empty ones dropped, joined by single
  spaces; the whitespace inside a string is left as it is.
\<close>

theorem get_filing_text_cases:
  "(requests_get file_link = Inl e \<longrightarrow> get_filing_text requests_get parse file_link = [])
   \<and> (requests_get file_link = Inr response \<and> status_code response \<noteq> 200 \<longrightarrow>
        get_filing_text requests_get parse file_link = [])
   \<and> (requests_get file_link = Inr response \<and> status_code response = 200
        \<and> parse (resp_text response) = Inl e' \<longrightarrow>
        get_filing_text requests_get parse file_link = [])
   \<and> (requests_get file_link = Inr response \<and> status_code response = 200
        \<and> parse (resp_text response) = Inr soup \<longrightarrow>
        get_filing_text requests_get parse file_link =
          (case List.find (type_label_is ''10-K'') (find_all ''document'' soup) of
             Some doc \<Rightarrow> join '' '' (filter (\<lambda>s. s \<noteq> []) (map strip (strings_of doc)))
           | None \<Rightarrow> join '' '' (filter (\<lambda>s. s \<noteq> []) (map strip (strings_of soup)))))"
  by (auto simp: get_filing_text_def first_10k_find get_text_sep_strip_def split: option.splits)

theorem get_filing_text_cases_witness:
  "get_filing_text (\<lambda>url. Inr \<lparr>status_code = 200, resp_text = ''<html>''\<rparr>)
     (\<lambda>body. Inr (Tag ''[document]'' [Tag ''html'' [Tag ''body''
        [Tag ''document'' [Tag ''type'' [Text NavigableString ''10-k''],
           Text NavigableString ''lower case label''],
         Tag ''document'' [Tag ''type'' [Text NavigableString (''10-K'' @ [CHR 0xA0])],
           Tag ''script'' [Text Script ''var x;''],
           Text NavigableString '' Annual  report  ''],
         Tag ''document'' [Tag ''type'' [Text NavigableString ''10-K''],
           Text NavigableString ''second'']]]]))
     ''https://www.sec.gov/x'' = ''10-K Annual  report''
   \<and> get_filing_text (\<lambda>url. Inr \<lparr>status_code = 404, resp_text = ''<html>''\<rparr>)
     (\<lambda>body. Inr (Tag ''[document]'' [Text NavigableString ''Not found'']))
     ''https://www.sec.gov/x'' = []
   \<and> get_filing_text (\<lambda>url. Inl (RequestError ''timeout''))
     (\<lambda>body. Inr (Tag ''[document]'' [Text NavigableString ''Not found'']))
     ''https://www.sec.gov/x'' = []
   \<and> get_filing_text (\<lambda>url. Inr \<lparr>status_code = 200, resp_text = ''<html>''\<rparr>)
     (\<lambda>body. Inr (Tag ''[document]'' [Text Comment ''draft'',
        Tag ''p'' [Text NavigableString '' plain ''], Text NavigableString ''page '']))
     ''https://www.sec.gov/x'' = ''plain page''"
proof -
  let ?soup = "Tag ''[document]'' [Tag ''html'' [Tag ''body''
        [Tag ''document'' [Tag ''type'' [Text NavigableString ''10-k''],
           Text NavigableString ''lower case label''],
         Tag ''document'' [Tag ''type'' [Text NavigableString (''10-K'' @ [CHR 0xA0])],
           Tag ''script'' [Text Script ''var x;''],
           Text NavigableString '' Annual  report  ''],
         Tag ''document'' [Tag ''type'' [Text NavigableString ''10-K''],
           Text NavigableString ''second'']]]]"
  let ?ok = "\<lambda>url::string. (Inr \<lparr>status_code = 200, resp_text = ''<html>''\<rparr> :: error + response)"
  let ?nf = "\<lambda>url::string. (Inr \<lparr>status_code = 404, resp_text = ''<html>''\<rparr> :: error + response)"
  let ?page = "Tag ''[document]'' [Text Comment ''draft'',
        Tag ''p'' [Text NavigableString '' plain ''], Text NavigableString ''page '']"
  have a: "get_filing_text ?ok (\<lambda>body. Inr ?soup) ''https://www.sec.gov/x'' = ''10-K Annual  report''"
    using get_filing_text_cases [where requests_get = ?ok and parse = "\<lambda>body. Inr ?soup"
        and file_link = "''https://www.sec.gov/x''" and soup = ?soup
        and response = "\<lparr>status_code = 200, resp_text = ''<html>''\<rparr>"]
    by (simp add: find_all_def type_label_is_def find_first_def get_text_def
        strings_of_def interesting_string_types_def strip_def is_space_def)
  have b: "get_filing_text ?nf (\<lambda>body. Inr (Tag ''[document]'' [Text NavigableString ''Not found'']))
     ''https://www.sec.gov/x'' = []"
    using get_filing_text_cases [where requests_get = ?nf
        and parse = "\<lambda>body. Inr (Tag ''[document]'' [Text NavigableString ''Not found''])"
        and file_link = "''https://www.sec.gov/x''"
        and response = "\<lparr>status_code = 404, resp_text = ''<html>''\<rparr>"]
    by simp
  have c: "get_filing_text (\<lambda>url. Inl (RequestError ''timeout''))
     (\<lambda>body. Inr (Tag ''[document]'' [Text NavigableString ''Not found''])) ''https://www.sec.gov/x'' = []"
    using get_filing_text_cases [where requests_get = "\<lambda>url. Inl (RequestError ''timeout'')"
        and parse = "\<lambda>body. Inr (Tag ''[document]'' [Text NavigableString ''Not found''])"
        and file_link = "''https://www.sec.gov/x''" and e = "RequestError ''timeout''"]
    by simp
  have d: "get_filing_text ?ok (\<lambda>body. Inr ?page) ''https://www.sec.gov/x'' = ''plain page''"
    using get_filing_text_cases [where requests_get = ?ok and parse = "\<lambda>body. Inr ?page"
        and file_link = "''https://www.sec.gov/x''" and soup = ?page
        and response = "\<lparr>status_code = 200, resp_text = ''<html>''\<rparr>"]
    by (simp add: find_all_def type_label_is_def find_first_def get_text_def
        strings_of_def interesting_string_types_def strip_def is_space_def)
  from a b c d show ?thesis by blast
qed

text \<open>
  The claim C7 as stated fails in its last part: the page text is not whitespace
  normalized. A page with no document block whose one string is \<open>Annual  report\<close>, with
  two spaces, comes back with both of them.
\<close>

theorem get_filing_text_keeps_inner_whitespace:
  "get_filing_text (\<lambda>url. Inr \<lparr>status_code = 200, resp_text = ''<html>''\<rparr>)
     (\<lambda>body. Inr (Tag ''[document]'' [Tag ''p'' [Text NavigableString ''Annual  report'']]))
     ''https://www.sec.gov/x'' = ''Annual  report''
   \<and> \<not> no_double_space (get_filing_text
     (\<lambda>url. Inr \<lparr>status_code = 200, resp_text = ''<html>''\<rparr>)
     (\<lambda>body. Inr (Tag ''[document]'' [Tag ''p'' [Text NavigableString ''Annual  report'']]))
     ''https://www.sec.gov/x'')"
  by (simp add: get_filing_text_def find_all_def find_first_def get_text_sep_strip_def
      strings_of_def interesting_string_types_def strip_def is_space_def)

section \<open>Properties of the matcher\<close>

text \<open>Positions, and where a pattern occurs.\<close>

lemma pos_after_simps [simp]:
  "pos_after pc [] = pc"
  "pos_after pc (c # u) = pos_after (Some c) u"
  "pos_after pc (u @ [c]) = Some c"
  by (simp_all add: pos_after_def)

lemma pos_after_append [simp]: "pos_after pc (u @ v) = pos_after (pos_after pc u) v"
  by (induction u arbitrary: pc) simp_all

lemma reps_pos:
  "(qc, t) \<in> set (reps ic k pc s) \<Longrightarrow>
     \<exists>u. s = u @ t \<and> list_all (cls_match ic k) u \<and> qc = pos_after pc u"
proof (induction s arbitrary: pc)
  case Nil
  then show ?case by simp
next
  case (Cons c s)
  show ?case
  proof (cases "(qc, t) = (pc, c # s)")
    case True
    then show ?thesis by simp
  next
    case False
    with Cons.prems have m: "cls_match ic k c" and mem: "(qc, t) \<in> set (reps ic k (Some c) s)"
      by (auto split: if_splits)
    from Cons.IH [OF mem] obtain u where
      u: "s = u @ t" "list_all (cls_match ic k) u" "qc = pos_after (Some c) u"
      by blast
    show ?thesis
      by (rule exI [of _ "c # u"]) (use u m in auto)
  qed
qed

lemma ms_pos:
  "(g, (qc, t)) \<in> set (ms ic r (pc, s)) \<Longrightarrow> \<exists>u. s = u @ t \<and> qc = pos_after pc u"
proof (induction r arbitrary: g qc t pc s)
  case Eps
  then show ?case by simp
next
  case (Atom k)
  then show ?case by (auto split: list.splits if_splits intro: exI [of _ "[x]" for x])
next
  case (Seq a b)
  from Seq.prems obtain g1 q1 g2 where
    a: "(g1, q1) \<in> set (ms ic a (pc, s))" and b: "(g2, (qc, t)) \<in> set (ms ic b q1)"
    by auto
  obtain qc1 t1 where q1: "q1 = (qc1, t1)" by (cases q1)
  from Seq.IH(1) [OF a [unfolded q1]] obtain u1 where u1: "s = u1 @ t1" "qc1 = pos_after pc u1"
    by blast
  from Seq.IH(2) [OF b [unfolded q1]] obtain u2 where u2: "t1 = u2 @ t" "qc = pos_after qc1 u2"
    by blast
  show ?case by (rule exI [of _ "u1 @ u2"]) (simp add: u1 u2)
next
  case (Opt a)
  then show ?case by auto
next
  case (Rep k n greedy)
  then have "(qc, t) \<in> set (reps ic k pc s)"
    by (auto simp: Let_def dest: in_set_dropD split: if_splits)
  from reps_pos [OF this] show ?case by auto
next
  case (Group a)
  then show ?case by auto
next
  case (Ahead a)
  then show ?case by (auto split: if_splits)
next
  case (Behind k)
  then show ?case by (auto split: option.splits if_splits)
qed

lemma ms_Seq_mem:
  "(g, q) \<in> set (ms ic (Seq a b) p) \<longleftrightarrow>
     (\<exists>g1 q1 g2. (g1, q1) \<in> set (ms ic a p) \<and> (g2, q) \<in> set (ms ic b q1) \<and> g = g1 @ g2)"
  by (auto simp: image_iff) force

lemma ms_Seq_nonempty:
  "ms ic (Seq a b) p \<noteq> [] \<longleftrightarrow> (\<exists>g1 q1. (g1, q1) \<in> set (ms ic a p) \<and> ms ic b q1 \<noteq> [])"
  by (simp add: concat_eq_Nil_conv split: prod.splits) (force+)

lemma occurs_from_here: "ms ic r (pc, s) \<noteq> [] \<Longrightarrow> occurs_from ic r pc s"
  by (cases s) simp_all

lemma occurs_from_append:
  "occurs_from ic r (pos_after pc u) t \<Longrightarrow> occurs_from ic r pc (u @ t)"
  by (induction u arbitrary: pc) auto

lemma occurs_from_iff:
  "occurs_from ic r pc s \<longleftrightarrow> (\<exists>u t. s = u @ t \<and> ms ic r (pos_after pc u, t) \<noteq> [])"
proof (induction s arbitrary: pc)
  case Nil
  then show ?case by simp
next
  case (Cons c s)
  show ?case
  proof
    assume "occurs_from ic r pc (c # s)"
    then consider "ms ic r (pc, c # s) \<noteq> []" | "occurs_from ic r (Some c) s" by auto
    then show "\<exists>u t. c # s = u @ t \<and> ms ic r (pos_after pc u, t) \<noteq> []"
    proof cases
      case 1
      then show ?thesis by (rule_tac x = "[]" in exI, rule_tac x = "c # s" in exI) simp
    next
      case 2
      with Cons.IH obtain u t where "s = u @ t" "ms ic r (pos_after (Some c) u, t) \<noteq> []"
        by blast
      then show ?thesis by (rule_tac x = "c # u" in exI, rule_tac x = t in exI) simp
    qed
  next
    assume "\<exists>u t. c # s = u @ t \<and> ms ic r (pos_after pc u, t) \<noteq> []"
    then obtain u t where ut: "c # s = u @ t" "ms ic r (pos_after pc u, t) \<noteq> []" by blast
    from occurs_from_here [OF ut(2)] have "occurs_from ic r (pos_after pc u) t" .
    from occurs_from_append [OF this] ut(1) show "occurs_from ic r pc (c # s)" by simp
  qed
qed

lemma occurs_Seq1: "occurs_from ic (Seq a b) pc s \<Longrightarrow> occurs_from ic a pc s"
  unfolding occurs_from_iff ms_Seq_nonempty
  by (metis empty_iff empty_set)

lemma occurs_Seq2:
  assumes "occurs_from ic (Seq a b) pc s"
  shows "occurs_from ic b pc s"
proof -
  from assms obtain u t g1 q1 where s: "s = u @ t"
    and a: "(g1, q1) \<in> set (ms ic a (pos_after pc u, t))" and b: "ms ic b q1 \<noteq> []"
    unfolding occurs_from_iff ms_Seq_nonempty by blast
  obtain qc1 t1 where q1: "q1 = (qc1, t1)" by (cases q1)
  from ms_pos [OF a [unfolded q1]] obtain u1 where u1: "t = u1 @ t1" "qc1 = pos_after (pos_after pc u) u1"
    by blast
  have "s = (u @ u1) @ t1" "ms ic b (pos_after pc (u @ u1), t1) \<noteq> []"
    using s u1 b q1 by simp_all
  then show ?thesis unfolding occurs_from_iff by blast
qed

lemma first_match_False:
  "first_match ic r False p = (case ms ic r p of [] \<Rightarrow> None | x # _ \<Rightarrow> Some x)"
  by (cases "ms ic r p") (auto simp: first_match_def)

lemma search_from_occurs:
  "search_from ic r False pc s \<noteq> None \<longleftrightarrow> occurs_from ic r pc s"
  by (induction s arbitrary: pc) (auto simp: first_match_False split: list.splits)

lemma re_search_None: "\<not> occurs ic r s \<Longrightarrow> re_search ic r s = None"
  using search_from_occurs [of ic r None s] by (simp add: re_search_def occurs_def)

subsection \<open>The match the search reports\<close>

text \<open>
  Where every component of a pattern has a forced first alternative (a literal, a greedy
  run that the next character ends, a group around such a run), the first element of
  \<open>ms\<close> is computed step by step.
\<close>

lemma no_head_append:
  "no_head P (w @ t) = (if w = [] then no_head P t else \<not> P (hd w))"
  by (cases w) simp_all

lemma reps_length: "length (reps ic k pc s) = Suc (length (takeWhile (cls_match ic k) s))"
  by (induction s arbitrary: pc) simp_all

lemma reps_last:
  "last (reps ic k pc s)
     = (pos_after pc (takeWhile (cls_match ic k) s), dropWhile (cls_match ic k) s)"
proof (induction s arbitrary: pc)
  case Nil
  then show ?case by simp
next
  case (Cons c s)
  have ne: "reps ic k (Some c) s \<noteq> []" by (cases s) simp_all
  show ?case using Cons.IH [of "Some c"] ne by simp
qed

lemma first_rep_greedy:
  "first_match ic (Rep k n True) False (pc, s) =
     (if n \<le> length (takeWhile (cls_match ic k) s)
      then Some ([], (pos_after pc (takeWhile (cls_match ic k) s), dropWhile (cls_match ic k) s))
      else None)"
proof -
  let ?xs = "reps ic k pc s"
  have len: "length ?xs = Suc (length (takeWhile (cls_match ic k) s))" by (rule reps_length)
  show ?thesis
  proof (cases "n \<le> length (takeWhile (cls_match ic k) s)")
    case True
    then have ne: "drop n ?xs \<noteq> []" using len by simp
    have l: "last (drop n ?xs) = last ?xs" using True len by (simp add: last_drop)
    obtain ys where ys: "drop n ?xs = ys @ [last ?xs]"
      using append_butlast_last_id [OF ne] l by metis
    have "rev (drop n ?xs) = last ?xs # rev ys" by (simp add: ys)
    with True show ?thesis by (simp add: first_match_False reps_last Let_def)
  next
    case False
    then have "drop n ?xs = []" using len by simp
    with False show ?thesis by (simp add: first_match_False Let_def)
  qed
qed

lemma takeWhile_run:
  "list_all P w \<Longrightarrow> no_head P t \<Longrightarrow> takeWhile P (w @ t) = w \<and> dropWhile P (w @ t) = t"
  by (induction w) (auto simp: list_all_iff elim: no_head.elims)

lemma first_rep_run:
  assumes "list_all (cls_match ic k) w" and "no_head (cls_match ic k) t" and "n \<le> length w"
  shows "first_match ic (Rep k n True) False (pc, w @ t) = Some ([], (pos_after pc w, t))"
  using takeWhile_run [OF assms(1,2)] assms(3) by (simp add: first_rep_greedy)

lemma first_Seq:
  assumes "first_match ic a False p = Some (g, q)" and "first_match ic b False q = Some (h, r)"
  shows "first_match ic (Seq a b) False p = Some (g @ h, r)"
  using assms by (auto simp: first_match_False split: list.splits)

lemma first_Atom:
  "cls_match ic k c \<Longrightarrow> first_match ic (Atom k) False (pc, c # t) = Some ([], (Some c, t))"
  by (simp add: first_match_False)

lemma first_Eps: "first_match ic Eps False p = Some ([], p)"
  by (simp add: first_match_False)

lemma cls_match_Lit_same: "cls_match ic (Lit c) c"
  by simp

lemma first_lit:
  "first_match ic (lit w) False (pc, w @ t) = Some ([], (pos_after pc w, t))"
proof (induction w arbitrary: pc rule: lit.induct)
  case 1
  show ?case by (simp add: first_Eps)
next
  case (2 c)
  show ?case by (simp add: first_Atom)
next
  case (3 c d cs)
  have a: "first_match ic (Atom (Lit c)) False (pc, c # (d # cs) @ t) = Some ([], (Some c, (d # cs) @ t))"
    by (rule first_Atom) simp
  from first_Seq [OF a "3.IH" [of "Some c"]] show ?case by simp
qed

lemma first_Group:
  assumes "first_match ic a False (pc, s) = Some (g, (qc, t))"
  shows "first_match ic (Group a) False (pc, s) = Some (take (length s - length t) s # g, (qc, t))"
  using assms by (auto simp: first_match_False split: list.splits)

lemma search_from_first:
  assumes "first_match ic r False (pc, s) = Some (g, q)"
  shows "search_from ic r False pc s
           = Some \<lparr>m_pre = [], m_text = take (length s - length (snd q)) s, m_groups = g, m_end = q\<rparr>"
  using assms by (cases s) simp_all


lemma cls_match_Space: "cls_match ic Space = is_space"
  by (rule ext) simp

lemma cls_match_Digit: "cls_match ic Digit = is_digit"
  by (rule ext) simp

lemma digit_not_space: "is_digit c \<Longrightarrow> \<not> is_space c"
  by (auto simp: is_digit_def is_space_def Let_def)

lemma first_Seq_then:
  assumes "first_match ic a False p = Some ([], q)" and "first_match ic b False q = Some (h, r)"
  shows "first_match ic (Seq a b) False p = Some (h, r)"
  using first_Seq [OF assms] by simp

lemma first_Seq_group:
  assumes "first_match ic a False p = Some (g, q)" and "first_match ic b False q = Some ([], r)"
  shows "first_match ic (Seq a b) False p = Some (g, r)"
  using first_Seq [OF assms] by simp

lemma first_ws0_then:
  assumes "list_all is_space w" and "no_head is_space t"
    and "first_match ic r False (pos_after pc w, t) = Some (g, q)"
  shows "first_match ic (Seq ws0 r) False (pc, w @ t) = Some (g, q)"
proof (rule first_Seq_then [OF _ assms(3)])
  show "first_match ic ws0 False (pc, w @ t) = Some ([], pos_after pc w, t)"
    unfolding ws0_def using assms(1,2) by (intro first_rep_run) (simp_all add: cls_match_Space)
qed

lemma first_lit_then:
  assumes "first_match ic r False (pos_after pc w, t) = Some (g, q)"
  shows "first_match ic (Seq (lit w) r) False (pc, w @ t) = Some (g, q)"
  by (rule first_Seq_then [OF first_lit assms])

section \<open>Properties of the field extractors\<close>

lemma reps_occurs:
  assumes "(qc, t) \<in> set (reps ic k pc s)" and "ms ic e (qc, t) \<noteq> []"
  shows "occurs_from ic e pc s"
proof -
  from reps_pos [OF assms(1)] obtain u where "s = u @ t" "qc = pos_after pc u" by blast
  with assms(2) show ?thesis unfolding occurs_from_iff by blast
qed

lemma bounded_match_end:
  assumes "ms ic (Seq a (Seq (Rep k 0 False) (Ahead e))) p \<noteq> []"
  shows "list_ex (\<lambda>(g, (qc, t)). occurs_from ic e qc t) (ms ic a p)"
proof -
  from assms obtain g1 q1 where a: "(g1, q1) \<in> set (ms ic a p)"
    and rest: "ms ic (Seq (Rep k 0 False) (Ahead e)) q1 \<noteq> []"
    unfolding ms_Seq_nonempty by blast
  obtain qc1 t1 where q1: "q1 = (qc1, t1)" by (cases q1)
  from rest obtain g2 q2 where r: "(g2, q2) \<in> set (ms ic (Rep k 0 False) (qc1, t1))"
    and e: "ms ic (Ahead e) q2 \<noteq> []"
    unfolding ms_Seq_nonempty q1 by blast
  obtain qc2 t2 where q2: "q2 = (qc2, t2)" by (cases q2)
  from r have "(qc2, t2) \<in> set (reps ic k qc1 t1)" by (auto simp: q2)
  moreover from e have "ms ic e (qc2, t2) \<noteq> []" by (auto simp: q2 split: if_splits)
  ultimately have "occurs_from ic e qc1 t1" by (rule reps_occurs)
  with a q1 show ?thesis by (auto simp: list_ex_iff)
qed

lemma bounded_occurs_follows:
  "occurs_from ic (Seq a (Seq (Rep k 0 False) (Ahead e))) pc s \<Longrightarrow> follows_from ic a e pc s"
proof (induction s arbitrary: pc)
  case Nil
  then show ?case using bounded_match_end [of ic a k e "(pc, [])"] by simp
next
  case (Cons c s)
  from Cons.prems consider "ms ic (Seq a (Seq (Rep k 0 False) (Ahead e))) (pc, c # s) \<noteq> []"
    | "occurs_from ic (Seq a (Seq (Rep k 0 False) (Ahead e))) (Some c) s"
    by (auto simp del: ms.simps)
  then show ?case
  proof cases
    case 1
    from bounded_match_end [OF 1] show ?thesis by simp
  next
    case 2
    from Cons.IH [OF 2] show ?thesis by simp
  qed
qed

lemma follows_occurs: "follows_from ic a e pc s \<Longrightarrow> occurs_from ic a pc s"
  by (induction s arbitrary: pc) (auto simp: list_ex_iff)

lemma findall_search:
  "findall ic r s = (case re_search ic r s of None \<Rightarrow> []
     | Some m \<Rightarrow> m_text m # map m_text (finditer ic r (m_text m = []) (fst (m_end m)) (snd (m_end m))))"
  by (simp add: findall_def re_search_def finditer.simps [of ic r False None s] split: option.splits)

lemma extract_item1_search:
  "extract_item1_business text =
     (case re_search True item1_pattern text of None \<Rightarrow> [] | Some m \<Rightarrow> m_text m)"
  by (simp add: extract_item1_business_def findall_search split: option.splits)

lemma extract_item1_no_span:
  assumes "\<not> follows True item1_start item1_end text"
  shows "extract_item1_business text = []"
proof -
  have "\<not> occurs True item1_pattern text"
    using assms bounded_occurs_follows [of True item1_start AnyChar item1_end None "text"]
    by (auto simp: occurs_def follows_def item1_pattern_def)
  then show ?thesis by (simp add: extract_item1_search re_search_None)
qed

text \<open>
  C1, as the code has it: for the text
  \<open>...ITEM 1. BUSINESS Foo bar. ITEM 1A. RISK FACTORS Baz...\<close> the extractor returns
  \<open>ITEM 1. BUSINESS Foo bar. \<close>, the text from the start marker, which is included, up
  to the end marker, which is excluded; and for every text in which the start marker is
  absent, or in which no end marker follows a start marker, it returns the empty string.
\<close>

theorem extract_item1_business_span:
  "extract_item1_business ''...ITEM 1. BUSINESS Foo bar. ITEM 1A. RISK FACTORS Baz...''
     = ''ITEM 1. BUSINESS Foo bar. ''
   \<and> (\<not> occurs True item1_start text \<longrightarrow> extract_item1_business text = [])
   \<and> (\<not> follows True item1_start item1_end text \<longrightarrow> extract_item1_business text = [])"
proof -
  have ex: "extract_item1_business ''...ITEM 1. BUSINESS Foo bar. ITEM 1A. RISK FACTORS Baz...''
     = ''ITEM 1. BUSINESS Foo bar. ''"
    by code_simp
  have "\<not> follows True item1_start item1_end text" if "\<not> occurs True item1_start text"
    using that follows_occurs [of True item1_start item1_end None "text"]
    by (auto simp: occurs_def follows_def)
  with ex extract_item1_no_span show ?thesis by blast
qed

theorem extract_item1_business_span_witness:
  "extract_item1_business ''ITEM 2. PROPERTIES None. ITEM 1A. RISK FACTORS Baz'' = []
   \<and> extract_item1_business ''ITEM 1A. RISK FACTORS Baz. ITEM 1. BUSINESS Foo bar.'' = []"
proof -
  have a: "\<not> occurs True item1_start ''ITEM 2. PROPERTIES None. ITEM 1A. RISK FACTORS Baz''"
    by code_simp
  have b: "\<not> follows True item1_start item1_end
       ''ITEM 1A. RISK FACTORS Baz. ITEM 1. BUSINESS Foo bar.''"
    by code_simp
  from a b extract_item1_business_span [of "''ITEM 2. PROPERTIES None. ITEM 1A. RISK FACTORS Baz''"]
    extract_item1_business_span [of "''ITEM 1A. RISK FACTORS Baz. ITEM 1. BUSINESS Foo bar.''"]
  show ?thesis by blast
qed

text \<open>
  The claim C1 as stated fails: the result on that text is not \<open>Foo bar. \<close>, since the
  pattern has no group and the whole match, start marker included, is returned.
\<close>

theorem extract_item1_business_includes_start:
  "extract_item1_business ''...ITEM 1. BUSINESS Foo bar. ITEM 1A. RISK FACTORS Baz...''
     \<noteq> ''Foo bar. ''"
  by code_simp

section \<open>Properties of the tag extractors\<close>

lemma first_open_tag:
  assumes "list_all is_space w1" and "list_all is_space w2" and "no_head is_space name"
    and "name \<noteq> []"
  shows "first_match ic (open_tag name) False (pc, ''<'' @ w1 @ name @ w2 @ ''>'' @ t)
           = Some ([], (Some CHR ''>'', t))"
proof -
  have nh: "no_head is_space (name @ w2 @ ''>'' @ t)"
    using assms(3,4) by (cases name) simp_all
  have gt: "no_head is_space (''>'' @ t)" by (simp add: is_space_def)
  have e: "first_match ic (lit ''>'') False (pos_after (pos_after (pos_after (pos_after pc ''<'') w1) name) w2, ''>'' @ t)
             = Some ([], (Some CHR ''>'', t))"
    using first_lit [of ic "''>''" _ t] by (simp add: pos_after_def)
  show ?thesis unfolding open_tag_def seqs.simps
    by (rule first_lit_then, rule first_ws0_then [OF assms(1) nh], rule first_lit_then,
        rule first_ws0_then [OF assms(2) gt], rule e)
qed

lemma first_close_tag:
  assumes "list_all is_space w1" and "list_all is_space w2" and "list_all is_space w3"
    and "no_head is_space name" and "name \<noteq> []"
  shows "first_match ic (close_tag name) False
           (pc, ''<'' @ w1 @ ''/'' @ w2 @ name @ w3 @ ''>'' @ t)
           = Some ([], (Some CHR ''>'', t))"
proof -
  have sl: "no_head is_space (''/'' @ w2 @ name @ w3 @ ''>'' @ t)" by (simp add: is_space_def)
  have nh: "no_head is_space (name @ w3 @ ''>'' @ t)"
    using assms(4,5) by (cases name) simp_all
  have gt: "no_head is_space (''>'' @ t)" by (simp add: is_space_def)
  have e: "first_match ic (lit ''>'') False (pc', ''>'' @ t) = Some ([], (Some CHR ''>'', t))" for pc'
    using first_lit [of ic "''>''" pc' t] by (simp add: pos_after_def)
  show ?thesis unfolding close_tag_def seqs.simps
    by (rule first_lit_then, rule first_ws0_then [OF assms(1) sl], rule first_lit_then,
        rule first_ws0_then [OF assms(2) nh], rule first_lit_then,
        rule first_ws0_then [OF assms(3) gt], rule e)
qed

lemma first_open_then:
  assumes "list_all is_space w1" and "list_all is_space w2" and "no_head is_space name"
    and "name \<noteq> []" and "first_match ic r False (Some CHR ''>'', t) = Some (g, q)"
  shows "first_match ic (Seq (open_tag name) r) False (pc, ''<'' @ w1 @ name @ w2 @ ''>'' @ t)
           = Some (g, q)"
  by (rule first_Seq_then [OF first_open_tag [OF assms(1-4)] assms(5)])

lemma first_close_then:
  assumes "list_all is_space w1" and "list_all is_space w2" and "list_all is_space w3"
    and "no_head is_space name" and "name \<noteq> []"
    and "first_match ic r False (Some CHR ''>'', t) = Some (g, q)"
  shows "first_match ic (Seq (close_tag name) r) False
           (pc, ''<'' @ w1 @ ''/'' @ w2 @ name @ w3 @ ''>'' @ t) = Some (g, q)"
  by (rule first_Seq_then [OF first_close_tag [OF assms(1-5)] assms(6)])

lemma first_group_digits:
  assumes "list_all is_digit d" and "d \<noteq> []" and "no_head is_digit t"
  shows "first_match ic (Group (Rep Digit 1 True)) False (pc, d @ t) = Some ([d], (pos_after pc d, t))"
proof -
  have "first_match ic (Rep Digit 1 True) False (pc, d @ t) = Some ([], (pos_after pc d, t))"
    using assms by (intro first_rep_run) (simp_all add: cls_match_Digit Suc_le_eq)
  from first_Group [OF this] show ?thesis by simp
qed

lemma strip_id:
  assumes "s \<noteq> []" and "\<not> is_space (hd s)" and "\<not> is_space (last s)"
  shows "strip s = s"
proof -
  have a: "dropWhile is_space s = s" using assms(1,2) by (cases s) simp_all
  have "rev s \<noteq> []" "\<not> is_space (hd (rev s))" using assms(1,3) by (simp_all add: hd_rev)
  then have "dropWhile is_space (rev s) = rev s" by (cases "rev s") simp_all
  with a show ?thesis by (simp add: strip_def)
qed

lemma is_officer_spaced:
  assumes w: "list_all is_space w1" "list_all is_space w2" "list_all is_space w3"
      "list_all is_space w4" "list_all is_space w5" "list_all is_space w6" "list_all is_space w7"
    and d: "list_all is_digit d" "d \<noteq> []"
  shows "extract_is_officer (''<'' @ w1 @ ''isOfficer'' @ w2 @ ''>'' @ w3 @ d @ w4
           @ ''<'' @ w5 @ ''/'' @ w6 @ ''isOfficer'' @ w7 @ ''>'' @ rest) = Some d"
proof -
  let ?close = "''<'' @ w5 @ ''/'' @ w6 @ ''isOfficer'' @ w7 @ ''>'' @ rest"
  have hd_d: "is_digit (hd d)" "is_digit (last d)" using d by (auto simp: list_all_iff)
  have nh1: "no_head is_space (d @ w4 @ ?close)"
    using d(2) hd_d digit_not_space by (cases d) auto
  have nh2: "no_head is_digit (w4 @ ?close)"
    using w(4) digit_not_space by (cases w4) (auto simp: is_digit_def)
  have nh3: "no_head is_space ?close" by (simp add: is_space_def)
  have nm: "no_head is_space ''isOfficer''" "''isOfficer'' \<noteq> []" by (simp_all add: is_space_def)
  have cl: "first_match True (close_tag ''isOfficer'') False (pc, ?close)
              = Some ([], (Some CHR ''>'', rest))" for pc
    by (rule first_close_tag [OF w(5,6,7) nm])
  have "first_match True is_officer_pattern False
          (None, ''<'' @ w1 @ ''isOfficer'' @ w2 @ ''>'' @ w3 @ d @ w4 @ ?close)
        = Some ([d], (Some CHR ''>'', rest))"
    unfolding is_officer_pattern_def
    by (rule first_open_then [OF w(1,2) nm], rule first_ws0_then [OF w(3) nh1],
        rule first_Seq_group [OF first_group_digits [OF d nh2]],
        rule first_ws0_then [OF w(4) nh3], rule cl)
  from search_from_first [OF this]
  have "extract_is_officer (''<'' @ w1 @ ''isOfficer'' @ w2 @ ''>'' @ w3 @ d @ w4 @ ?close)
          = Some (strip d)"
    by (simp add: extract_is_officer_def re_search_def group1_def)
  moreover have "strip d = d"
    using d(2) hd_d digit_not_space by (intro strip_id) auto
  ultimately show ?thesis by simp
qed

end
